theory Spec2Isabelle
  imports
    Main
    "HOL-Library.AList"
    "HOL-Library.Char_ord"
    "HOL-Library.List_Lexorder"
    "HOL-Library.Product_Lexorder"
    "HOL-Library.Sublist"
    "HOL-Library.Multiset"
begin

section \<open>Strings\<close>

text \<open>
  The client of \<^verbatim>\<open>DZ11/legal_api.py\<close> works on Python \<^verbatim>\<open>str\<close> values. They are
  modelled as \<^typ>\<open>string\<close>, read as the UTF-8 bytes of the text. The order of
  \<^theory_text>\<open>Char_ord\<close> and \<^theory_text>\<open>List_Lexorder\<close> on the bytes is the order of
  \<^verbatim>\<open>str\<close> on the code points, and a substring is a contiguous block of bytes.

  \<^verbatim>\<open>len(s)\<close> counts code points: the bytes of \<open>s\<close> that are not continuation bytes
  (\<open>0x80\<close> to \<open>0xBF\<close>). \<^verbatim>\<open>s[:n]\<close> keeps the first \<open>n\<close> code points.

  \<^verbatim>\<open>str.lower()\<close> is applied to identifiers, paths and keywords of any script. Its Unicode
  tables are not modelled: every function of the client that calls it takes it as the
  parameter \<open>lower\<close>, and what is proved holds for every function \<open>lower\<close>.
  \<open>ascii_lower\<close> is \<^verbatim>\<open>str.lower()\<close> on ASCII text and serves in the examples.
  \<^verbatim>\<open>str.upper()\<close> is applied to the names of HTTP methods only; \<open>upper\<close> changes the
  letters a-z.
\<close>

definition is_continuation :: "char \<Rightarrow> bool" where
  "is_continuation c \<longleftrightarrow> CHR 0x80 \<le> c \<and> c \<le> CHR 0xBF"

definition py_len :: "string \<Rightarrow> nat" where
  "py_len s = length (filter (\<lambda>c. \<not> is_continuation c) s)"

fun py_take :: "nat \<Rightarrow> string \<Rightarrow> string" where
  "py_take n [] = []"
| "py_take n (c # cs) =
     (if is_continuation c then c # py_take n cs
      else (case n of 0 \<Rightarrow> [] | Suc m \<Rightarrow> c # py_take m cs))"

definition ascii_uppercase :: string where
  "ascii_uppercase = ''ABCDEFGHIJKLMNOPQRSTUVWXYZ''"

definition ascii_lowercase :: string where
  "ascii_lowercase = ''abcdefghijklmnopqrstuvwxyz''"

definition ascii_lower_char :: "char \<Rightarrow> char" where
  "ascii_lower_char c =
     (case map_of (zip ascii_uppercase ascii_lowercase) c of Some d \<Rightarrow> d | None \<Rightarrow> c)"

definition upper_char :: "char \<Rightarrow> char" where
  "upper_char c =
     (case map_of (zip ascii_lowercase ascii_uppercase) c of Some d \<Rightarrow> d | None \<Rightarrow> c)"

definition ascii_lower :: "string \<Rightarrow> string" where
  "ascii_lower s = map ascii_lower_char s"

definition upper :: "string \<Rightarrow> string" where
  "upper s = map upper_char s"

text \<open>\<^verbatim>\<open>k in s\<close> on strings: \<open>k\<close> occurs in \<open>s\<close> as a contiguous block.\<close>

fun str_in :: "string \<Rightarrow> string \<Rightarrow> bool" where
  "str_in k [] = (k = [])"
| "str_in k (c # cs) = (prefix k (c # cs) \<or> str_in k cs)"

text \<open>
  \<^verbatim>\<open>s.replace(old, new)\<close>: every occurrence of \<open>old\<close>, found from the left and not
  overlapping an earlier one, becomes \<open>new\<close>; an empty \<open>old\<close> matches before every
  character and at the end.
\<close>

function str_replace :: "string \<Rightarrow> string \<Rightarrow> string \<Rightarrow> string" where
  "str_replace [] old new = (if old = [] then new else [])"
| "str_replace (c # cs) old new =
     (if old = [] then new @ c # str_replace cs old new
      else if prefix old (c # cs) then new @ str_replace (drop (length old) (c # cs)) old new
      else c # str_replace cs old new)"
  by pat_completeness auto
termination
  by (relation "measure (\<lambda>(s, old, new). length s)") auto


text \<open>\<^verbatim>\<open>sep.join(parts)\<close>.\<close>

fun join :: "string \<Rightarrow> string list \<Rightarrow> string" where
  "join sep [] = []"
| "join sep [p] = p"
| "join sep (p # q # ps) = p @ sep @ join sep (q # ps)"

subsection \<open>Percent-encoding\<close>

text \<open>
  \<^verbatim>\<open>requests.utils.quote\<close> is \<^verbatim>\<open>urllib.parse.quote\<close>. With \<^verbatim>\<open>safe=""\<close> the bytes kept
  as they are, are the letters, the digits and \<^verbatim>\<open>_.-~\<close>; every other byte becomes
  \<^verbatim>\<open>%XX\<close> with upper-case hexadecimal digits. \<^verbatim>\<open>quote_plus\<close>, which \<^verbatim>\<open>urlencode\<close> applies
  to keys and values, also turns a space into \<^verbatim>\<open>+\<close>.
\<close>

definition always_safe :: "char \<Rightarrow> bool" where
  "always_safe c \<longleftrightarrow>
     (CHR ''A'' \<le> c \<and> c \<le> CHR ''Z'') \<or> (CHR ''a'' \<le> c \<and> c \<le> CHR ''z'') \<or>
     (CHR ''0'' \<le> c \<and> c \<le> CHR ''9'') \<or> c \<in> set ''_.-~''"

definition hex_digit :: "nat \<Rightarrow> char" where
  "hex_digit n = ''0123456789ABCDEF'' ! (n mod 16)"

definition quote_char :: "char \<Rightarrow> string" where
  "quote_char c =
     (if always_safe c then [c]
      else [CHR ''%'', hex_digit ((of_char c :: nat) div 16), hex_digit (of_char c)])"

definition quote :: "string \<Rightarrow> string" where
  "quote s = concat (map quote_char s)"

definition quote_plus :: "string \<Rightarrow> string" where
  "quote_plus s = concat (map (\<lambda>c. if c = CHR '' '' then ''+'' else quote_char c) s)"

section \<open>Data model\<close>

text \<open>The dataclass \<^verbatim>\<open>Operation\<close>; its field \<^verbatim>\<open>method\<close> is \<open>http_method\<close> here.\<close>

record operation =
  http_method :: string
  path :: string
  operation_id :: string

text \<open>
  \<^verbatim>\<open>self._operations\<close> is a \<^verbatim>\<open>dict[str, Operation]\<close>. A Python dict iterates in insertion
  order and the resolver depends on that order, so the catalog is an association list;
  \<^const>\<open>AList.update\<close> is the assignment \<^verbatim>\<open>ops[k] = v\<close> (a present key keeps its place and
  takes the new value, a new key goes to the end) and \<^const>\<open>map_of\<close> is \<^verbatim>\<open>ops.get(k)\<close>.
  The other dicts of the client (path parameters, headers, files) are association lists as
  well.
\<close>

type_synonym catalog = "(string \<times> operation) list"

text \<open>The settings that \<^verbatim>\<open>LegalAPI.__init__\<close> stores, and the headers of its session.\<close>

record client =
  base_url :: string
  timeout :: int
  retries :: int
  session_headers :: "(string \<times> string) list"
  operations :: catalog

section \<open>Building the URL\<close>

text \<open>
  \<^verbatim>\<open>_build_url\<close>: one \<^verbatim>\<open>replace\<close> for each item of \<^verbatim>\<open>path_params\<close>, in the order of the
  dict. Keys and values are taken as their \<^verbatim>\<open>str()\<close> images.
\<close>

fun substitute :: "string \<Rightarrow> (string \<times> string) list \<Rightarrow> string" where
  "substitute url [] = url"
| "substitute url ((k, v) # kvs) =
     substitute (str_replace url (''{'' @ k @ ''}'') (quote v)) kvs"

definition build_url :: "client \<Rightarrow> string \<Rightarrow> (string \<times> string) list \<Rightarrow> string" where
  "build_url c path_tpl path_params = substitute (base_url c @ path_tpl) path_params"

section \<open>The transport\<close>

text \<open>
  What \<^verbatim>\<open>requests\<close> gives back is the environment of the client. A response is the part of
  \<^verbatim>\<open>requests.Response\<close> that the client reads: \<open>content_type\<close> is
  \<^verbatim>\<open>resp.headers.get("Content-Type")\<close>, and \<open>resp_json\<close> is the value of \<^verbatim>\<open>resp.json()\<close>
  (of \<^verbatim>\<open>json.loads(resp.text)\<close> in the schema loader), \<open>None\<close> when decoding raises. The
  type \<open>'j\<close> is the type of decoded and of structured values.
\<close>

record 'j response =
  status_code :: int
  content_type :: "string option"
  resp_text :: string
  resp_content :: string
  resp_json :: "'j option"

text \<open>
  A call of the session returns a response or raises. \<^verbatim>\<open>requests.ConnectionError\<close> and
  \<^verbatim>\<open>requests.Timeout\<close> are the two exceptions that \<^verbatim>\<open>_request\<close> catches; \<open>OtherException\<close>
  is any other one. Each carries the text of the exception.
\<close>

datatype 'j reply =
    Response "'j response"
  | ConnectionError string
  | Timeout string
  | OtherException string

text \<open>
  A query value is a string or a sequence of strings (\<^verbatim>\<open>urlencode(query, doseq=True)\<close>
  repeats the key for each element of a sequence).
\<close>

datatype qvalue = QStr string | QSeq "string list"

fun urlencode_item :: "string \<times> qvalue \<Rightarrow> string list" where
  "urlencode_item (k, QStr v) = [quote_plus k @ ''='' @ quote_plus v]"
| "urlencode_item (k, QSeq vs) = map (\<lambda>v. quote_plus k @ ''='' @ quote_plus v) vs"

definition urlencode :: "(string \<times> qvalue) list \<Rightarrow> string" where
  "urlencode query = join ''&'' (concat (map urlencode_item query))"

text \<open>The keyword arguments that \<^verbatim>\<open>_request\<close> hands to \<^verbatim>\<open>self._session.request\<close>.\<close>

record 'j http_request =
  req_method :: string
  req_url :: string
  req_timeout :: int
  req_json :: "'j option"
  req_data :: "'j option"
  req_files :: "(string \<times> string) list option"
  req_headers :: "(string \<times> string) list"

text \<open>
  What a call does to the outside: it sends requests and it sleeps. \<open>Slept attempt\<close> is
  \<^verbatim>\<open>time.sleep(self.backoff * attempt)\<close>; the product is a float and is not computed
  here, and the backoff is taken to be not negative, as its default is (\<^verbatim>\<open>time.sleep\<close>
  raises for a negative length). The server answers the \<open>n\<close>-th request of a call (counted from 0) with
  \<open>srv n rq\<close>.
\<close>

datatype 'j event = Sent "'j http_request" | Slept int

fun sent :: "'j event list \<Rightarrow> 'j http_request list" where
  "sent [] = []"
| "sent (Sent rq # es) = rq # sent es"
| "sent (Slept a # es) = sent es"

type_synonym 'j server = "nat \<Rightarrow> 'j http_request \<Rightarrow> 'j reply"

section \<open>Errors and results\<close>

text \<open>
  Every failure of the client is a \<^verbatim>\<open>LegalAPIError\<close> with a message; one constructor stands
  for each \<^verbatim>\<open>raise\<close> of the source and carries what its message (and its \<^verbatim>\<open>status\<close> and
  \<^verbatim>\<open>payload\<close>) is built from:
  \<^item> \<open>UnknownOperationId id\<close>: \<^verbatim>\<open>"Unknown operationId: {id}"\<close>;
  \<^item> \<open>HttpError status url text payload\<close>: \<^verbatim>\<open>"HTTP {status} at {url}: {text}"\<close>;
  \<^item> \<open>NetworkError url e\<close>: \<^verbatim>\<open>"Network error at {url}: {e}"\<close>;
  \<^item> \<open>RequestFailedAfterRetries last_err\<close>: \<^verbatim>\<open>"Request failed after retries: {last_err}"\<close>;
  \<^item> \<open>SchemaIsYaml\<close>: \<^verbatim>\<open>"OpenAPI schema is YAML; install PyYAML or use JSON schema endpoint."\<close>;
  \<^item> \<open>SchemaNotLoaded json_url yaml_url\<close>: the schema could be loaded from neither URL;
  \<^item> \<open>NoOperationsFound\<close>: \<^verbatim>\<open>"OpenAPI schema parsed, but no operations found."\<close>;
  \<^item> \<open>MethodNotFound keywords tips\<close>: no operation for the keywords, with the operations of
    \<^verbatim>\<open>list_efrsb_methods()\<close> as a hint.

  \<open>Raised name\<close> is an exception that is not a \<^verbatim>\<open>LegalAPIError\<close> and leaves the client
  uncaught.
\<close>

datatype 'j payload = Decoded 'j | RawText string

datatype 'j error =
    UnknownOperationId string
  | HttpError int string string "'j payload"
  | NetworkError string string
  | RequestFailedAfterRetries "string option"
  | SchemaIsYaml
  | SchemaNotLoaded string string
  | NoOperationsFound
  | MethodNotFound "string list" "operation list"
  | Raised string

text \<open>A successful call returns the decoded JSON or the bytes of the body.\<close>

datatype 'j result = Json 'j | Bytes string

section \<open>The request executor\<close>

text \<open>\<^verbatim>\<open>_safe_json\<close>.\<close>

definition safe_json :: "'j response \<Rightarrow> 'j payload" where
  "safe_json resp =
     (case resp_json resp of Some j \<Rightarrow> Decoded j | None \<Rightarrow> RawText (resp_text resp))"

text \<open>\<^verbatim>\<open>hdrs.update(headers)\<close>.\<close>

definition dict_update :: "('k \<times> 'v) list \<Rightarrow> ('k \<times> 'v) list \<Rightarrow> ('k \<times> 'v) list" where
  "dict_update d kvs = foldl (\<lambda>d (k, v). AList.update k v d) d kvs"

text \<open>
  The loop \<^verbatim>\<open>for attempt in range(1, self.retries + 2)\<close> of \<^verbatim>\<open>_request\<close>, as a recursion
  on the attempts still to make. \<open>last_err\<close> is the variable of that name, \<open>tr\<close> the events
  so far. The first equation is the statement after the loop.
\<close>

fun attempts ::
  "client \<Rightarrow> 'j server \<Rightarrow> 'j http_request \<Rightarrow> string \<Rightarrow> int list \<Rightarrow> string option \<Rightarrow>
   'j event list \<Rightarrow> ('j error + 'j result) \<times> 'j event list" where
  "attempts c srv rq url [] last_err tr = (Inl (RequestFailedAfterRetries last_err), tr)"
| "attempts c srv rq url (attempt # rest) last_err tr =
     (case srv (length (sent tr)) rq of
        Response resp \<Rightarrow>
          if 200 \<le> status_code resp \<and> status_code resp < 300 then
            (if str_in ''application/json''
                  (case content_type resp of None \<Rightarrow> [] | Some ctype \<Rightarrow> ctype)
             then (case resp_json resp of
                     Some j \<Rightarrow> (Inr (Json j), tr @ [Sent rq])
                   | None \<Rightarrow> (Inl (Raised ''JSONDecodeError''), tr @ [Sent rq]))
             else (Inr (Bytes (resp_content resp)), tr @ [Sent rq]))
          else if 500 \<le> status_code resp \<and> status_code resp < 600 \<and> attempt \<le> retries c then
            attempts c srv rq url rest last_err (tr @ [Sent rq, Slept attempt])
          else
            (Inl (HttpError (status_code resp) url (py_take 500 (resp_text resp)) (safe_json resp)),
             tr @ [Sent rq])
      | ConnectionError e \<Rightarrow>
          if attempt \<le> retries c then
            attempts c srv rq url rest (Some e) (tr @ [Sent rq, Slept attempt])
          else (Inl (NetworkError url e), tr @ [Sent rq])
      | Timeout e \<Rightarrow>
          if attempt \<le> retries c then
            attempts c srv rq url rest (Some e) (tr @ [Sent rq, Slept attempt])
          else (Inl (NetworkError url e), tr @ [Sent rq])
      | OtherException e \<Rightarrow> (Inl (Raised e), tr @ [Sent rq]))"

text \<open>
  \<^verbatim>\<open>_request\<close>: the headers and \<^verbatim>\<open>send_json\<close> are computed once, the keyword arguments
  of \<^verbatim>\<open>self._session.request\<close> are the same on every attempt (\<open>request_kwargs\<close>), and the
  loop starts with \<^verbatim>\<open>last_err = None\<close>. \<open>truthy\<close> is the truth value of an optional dict:
  \<^verbatim>\<open>None\<close> and \<^verbatim>\<open>{}\<close> are false.
\<close>

definition truthy :: "'a list option \<Rightarrow> bool" where
  "truthy d = (case d of None \<Rightarrow> False | Some kvs \<Rightarrow> kvs \<noteq> [])"

definition request_kwargs ::
  "client \<Rightarrow> string \<Rightarrow> string \<Rightarrow> (string \<times> qvalue) list option \<Rightarrow> 'j option \<Rightarrow>
   (string \<times> string) list option \<Rightarrow> (string \<times> string) list option \<Rightarrow> 'j http_request" where
  "request_kwargs c meth url query body files headers =
     (let hdrs = (case headers of
                    None \<Rightarrow> session_headers c
                  | Some h \<Rightarrow> if h = [] then session_headers c
                             else dict_update (session_headers c) h);
          send_json = (body \<noteq> None \<and> \<not> truthy files)
      in \<lparr> req_method = upper meth,
           req_url = (case query of
                        None \<Rightarrow> url
                      | Some q \<Rightarrow> if q = [] then url else url @ ''?'' @ urlencode q),
           req_timeout = timeout c,
           req_json = (if send_json then body else None),
           req_data = (if send_json then None else body),
           req_files = files,
           req_headers = hdrs \<rparr>)"

definition request ::
  "client \<Rightarrow> 'j server \<Rightarrow> string \<Rightarrow> string \<Rightarrow> (string \<times> qvalue) list option \<Rightarrow> 'j option \<Rightarrow>
   (string \<times> string) list option \<Rightarrow> (string \<times> string) list option \<Rightarrow>
   ('j error + 'j result) \<times> 'j event list" where
  "request c srv meth url query body files headers =
     attempts c srv (request_kwargs c meth url query body files headers) url
       [1 .. retries c + 1] None []"

section \<open>The facade\<close>

text \<open>The keyword arguments of \<^verbatim>\<open>call\<close>; each is \<^verbatim>\<open>None\<close> by default.\<close>

record 'j call_args =
  path_params :: "(string \<times> string) list option"
  query :: "(string \<times> qvalue) list option"
  body :: "'j option"
  files :: "(string \<times> string) list option"
  headers :: "(string \<times> string) list option"

text \<open>\<^verbatim>\<open>call\<close>. An \<^verbatim>\<open>Operation\<close> object is always true, so \<^verbatim>\<open>not op\<close> is \<^verbatim>\<open>op is None\<close>.\<close>

definition call ::
  "client \<Rightarrow> 'j server \<Rightarrow> string \<Rightarrow> 'j call_args \<Rightarrow> ('j error + 'j result) \<times> 'j event list" where
  "call c srv op_id args =
     (case map_of (operations c) op_id of
        None \<Rightarrow> (Inl (UnknownOperationId op_id), [])
      | Some op \<Rightarrow>
          request c srv (http_method op)
            (build_url c (path op) (case path_params args of None \<Rightarrow> [] | Some ps \<Rightarrow> ps))
            (query args) (body args) (files args) (headers args))"

text \<open>\<^verbatim>\<open>list_endpoints\<close>.\<close>

definition list_endpoints :: "client \<Rightarrow> string list" where
  "list_endpoints c = sort (map fst (operations c))"

section \<open>Loading the schema\<close>

text \<open>
  \<^verbatim>\<open>_load_openapi_schema\<close> makes two \<^verbatim>\<open>GET\<close>s, each inside \<^verbatim>\<open>try: ... except Exception: pass\<close>.
  A \<^verbatim>\<open>try\<close> block returns a document, raises, or falls through to the statement after it.
  \<open>get url hdrs\<close> is \<^verbatim>\<open>self._session.get(url, timeout=self.timeout, headers=hdrs)\<close>.
\<close>

datatype 'j tried = Returned 'j | RaisedIn "'j error" | FellThrough

definition try_json ::
  "client \<Rightarrow> (string \<Rightarrow> (string \<times> string) list \<Rightarrow> 'j reply) \<Rightarrow> 'j tried" where
  "try_json c get =
     (case get (base_url c @ ''/openapi.json'') [] of
        Response r \<Rightarrow>
          if status_code r = 200 then
            (case resp_json r of
               Some doc \<Rightarrow> Returned doc
             | None \<Rightarrow> RaisedIn (Raised ''JSONDecodeError''))
          else FellThrough
      | ConnectionError e \<Rightarrow> RaisedIn (Raised e)
      | Timeout e \<Rightarrow> RaisedIn (Raised e)
      | OtherException e \<Rightarrow> RaisedIn (Raised e))"

definition try_yaml ::
  "client \<Rightarrow> (string \<Rightarrow> (string \<times> string) list \<Rightarrow> 'j reply) \<Rightarrow> 'j tried" where
  "try_yaml c get =
     (case get (base_url c @ ''/openapi.yaml'') [(''Accept'', ''application/yaml, */*'')] of
        Response r \<Rightarrow>
          if status_code r = 200 then
            (case resp_json r of
               Some doc \<Rightarrow> Returned doc
             | None \<Rightarrow> RaisedIn SchemaIsYaml)
          else FellThrough
      | ConnectionError e \<Rightarrow> RaisedIn (Raised e)
      | Timeout e \<Rightarrow> RaisedIn (Raised e)
      | OtherException e \<Rightarrow> RaisedIn (Raised e))"

text \<open>
  Both handlers are \<^verbatim>\<open>except Exception: pass\<close>, and \<^verbatim>\<open>LegalAPIError\<close> is an \<^verbatim>\<open>Exception\<close>:
  whatever a block raises, the loader goes on to the next statement.
\<close>

definition load_openapi_schema ::
  "client \<Rightarrow> (string \<Rightarrow> (string \<times> string) list \<Rightarrow> 'j reply) \<Rightarrow> 'j error + 'j" where
  "load_openapi_schema c get =
     (case try_json c get of
        Returned doc \<Rightarrow> Inr doc
      | _ \<Rightarrow>
         (case try_yaml c get of
            Returned doc \<Rightarrow> Inr doc
          | _ \<Rightarrow> Inl (SchemaNotLoaded (base_url c @ ''/openapi.json'')
                                      (base_url c @ ''/openapi.yaml''))))"

section \<open>Building the catalog\<close>









section \<open>The keyword resolver\<close>

text \<open>The string that both passes search: \<^verbatim>\<open>f"{op.operation_id} {op.path}".lower()\<close>.\<close>

definition hay :: "(string \<Rightarrow> string) \<Rightarrow> operation \<Rightarrow> string" where
  "hay lower op = lower (operation_id op @ '' '' @ path op)"

text \<open>\<^verbatim>\<open>all(k.lower() in hay for k in keywords if k)\<close> and the same with \<^verbatim>\<open>any\<close>.\<close>

definition all_keywords :: "(string \<Rightarrow> string) \<Rightarrow> string list \<Rightarrow> operation \<Rightarrow> bool" where
  "all_keywords lower keywords op =
     list_all (\<lambda>k. str_in (lower k) (hay lower op)) (filter (\<lambda>k. k \<noteq> []) keywords)"

definition any_keyword :: "(string \<Rightarrow> string) \<Rightarrow> string list \<Rightarrow> operation \<Rightarrow> bool" where
  "any_keyword lower keywords op =
     list_ex (\<lambda>k. str_in (lower k) (hay lower op)) (filter (\<lambda>k. k \<noteq> []) keywords)"

text \<open>\<^verbatim>\<open>list_efrsb_methods\<close>, the hint of the error message.\<close>

definition efrsb_words :: "string list" where
  "efrsb_words =
     [''efrsb'', ''bankrupt'', ''bankruptcy'', ''debtor'', ''notice'', ''case'', ''insolv'']"

definition list_efrsb_methods :: "(string \<Rightarrow> string) \<Rightarrow> client \<Rightarrow> operation list" where
  "list_efrsb_methods lower c =
     filter (\<lambda>op. list_ex (\<lambda>k. str_in k (hay lower op)) efrsb_words) (map snd (operations c))"

text \<open>
  The key of \<^verbatim>\<open>candidates.sort\<close>, \<^verbatim>\<open>(len(o.operation_id), o.operation_id)\<close>; the sort is
  stable, as \<^const>\<open>sort_key\<close> is.
\<close>

definition sort_rank :: "operation \<Rightarrow> nat \<times> string" where
  "sort_rank op = (py_len (operation_id op), operation_id op)"

text \<open>
  \<^verbatim>\<open>_find_op\<close>: the strict pass with its sort, then the loose pass, then the error.
  \<^verbatim>\<open>candidates[0]\<close> is read of a list that is not empty.
\<close>

definition find_op :: "(string \<Rightarrow> string) \<Rightarrow> client \<Rightarrow> string list \<Rightarrow> 'j error + operation" where
  "find_op lower c keywords =
     (let candidates = filter (all_keywords lower keywords) (map snd (operations c)) in
      if candidates \<noteq> [] then
        (case sort_key sort_rank candidates of
           first # _ \<Rightarrow> Inr first
         | [] \<Rightarrow> Inl (Raised ''IndexError''))
      else
        (case find (any_keyword lower keywords) (map snd (operations c)) of
           Some op \<Rightarrow> Inr op
         | None \<Rightarrow> Inl (MethodNotFound keywords (list_efrsb_methods lower c))))"

section \<open>Example values\<close>

text \<open>
  The catalog of the end-to-end scenario, a client with the default settings, and servers
  that answer with a fixed status; the theorems below are instantiated with them.
\<close>

definition demo_ops :: catalog where
  "demo_ops =
     [(''searchEFRSBNotices'',
       \<lparr> http_method = ''GET'', path = ''/efrsb/notices'', operation_id = ''searchEFRSBNotices'' \<rparr>),
      (''getEFRSBDebtor'',
       \<lparr> http_method = ''GET'', path = ''/efrsb/debtors/{id}'', operation_id = ''getEFRSBDebtor'' \<rparr>)]"

definition demo_client :: client where
  "demo_client =
     \<lparr> base_url = ''https://legal-api.sirotinsky.com'', timeout = 30, retries = 3,
       session_headers = [(''Authorization'', ''Bearer t''), (''Accept'', ''application/json, */*''),
                          (''User-Agent'', ''LegalAPI-Client/1.0'')],
       operations = demo_ops \<rparr>"

definition status_response :: "int \<Rightarrow> string response" where
  "status_response s =
     \<lparr> status_code = s, content_type = Some ''application/json'',
       resp_text = ''{}'', resp_content = ''{}'', resp_json = Some ''{}'' \<rparr>"

definition always :: "'j reply \<Rightarrow> 'j server" where
  "always r = (\<lambda>n rq. r)"


definition no_args :: "string call_args" where
  "no_args = \<lparr> path_params = None, query = None, body = None, files = None, headers = None \<rparr>"

text \<open>
  A service whose JSON schema cannot be reached and whose \<^verbatim>\<open>/openapi.yaml\<close> is real YAML.
\<close>

definition yaml_response :: "string response" where
  "yaml_response =
     \<lparr> status_code = 200, content_type = Some ''application/yaml'',
       resp_text = ''openapi: 3.0.0'', resp_content = ''openapi: 3.0.0'', resp_json = None \<rparr>"

definition yaml_only_get :: "string \<Rightarrow> (string \<times> string) list \<Rightarrow> string reply" where
  "yaml_only_get url hdrs =
     (if url = ''https://legal-api.sirotinsky.com/openapi.json'' then ConnectionError ''refused''
      else Response yaml_response)"

text \<open>A call with a structured body and a file attachment, and the same call without the file.\<close>

definition upload_body :: string where
  "upload_body = ''{inn: 7707083893}''"

definition upload_files :: "(string \<times> string) list option" where
  "upload_files = Some [(''file'', ''%PDF-1.4'')]"


text \<open>
  A catalog with the identifier of two Cyrillic letters (four bytes: \<open>D1 8F D1 8F\<close>) and
  the identifier \<^verbatim>\<open>abc\<close>.
\<close>

definition ya_ya :: string where
  "ya_ya = [CHR 0xD1, CHR 0x8F, CHR 0xD1, CHR 0x8F]"

definition cyrillic_ops :: catalog where
  "cyrillic_ops =
     [(''abc'', \<lparr> http_method = ''GET'', path = ''/abc'', operation_id = ''abc'' \<rparr>),
      (ya_ya, \<lparr> http_method = ''GET'', path = ''/ya'', operation_id = ya_ya \<rparr>)]"

definition cyrillic_client :: client where
  "cyrillic_client =
     \<lparr> base_url = ''https://legal-api.sirotinsky.com'', timeout = 30, retries = 3,
       session_headers = [], operations = cyrillic_ops \<rparr>"

text \<open>An operation whose path has two placeholders, and a call that gives one of them.\<close>

definition case_op :: operation where
  "case_op =
     \<lparr> http_method = ''GET'', path = ''/efrsb/debtors/{id}/cases/{case}'',
       operation_id = ''getEFRSBCase'' \<rparr>"

definition case_client :: client where
  "case_client =
     \<lparr> base_url = ''https://legal-api.sirotinsky.com'', timeout = 30, retries = 3,
       session_headers = [], operations = [(''getEFRSBCase'', case_op)] \<rparr>"

definition case_args :: "string call_args" where
  "case_args =
     \<lparr> path_params = Some [(''case'', ''A40-1/2024'')], query = None, body = None,
       files = None, headers = None \<rparr>"

section \<open>Predicates of the statements\<close>


text \<open>A parameter name without braces, as the names of the placeholders of a path are.\<close>

definition brace_free :: "string \<Rightarrow> bool" where
  "brace_free s \<longleftrightarrow> CHR ''{'' \<notin> set s \<and> CHR ''}'' \<notin> set s"


















text \<open>
  A path template cut into pieces: literal text and placeholders \<^verbatim>\<open>{name}\<close>. It is well
  formed when no literal has an opening brace and no name has a brace. \<open>render_piece\<close> is
  what a piece is to become in the URL: a placeholder with a value becomes the
  percent-encoded value, a placeholder without a value stays as it is written.
  \<open>subst_piece\<close> is the same as a piece, and \<open>fill\<close> is the effect of one parameter.
\<close>

datatype piece = Lit string | Hole string

definition piece_text :: "piece \<Rightarrow> string" where
  "piece_text p = (case p of Lit t \<Rightarrow> t | Hole k \<Rightarrow> ''{'' @ k @ ''}'')"

definition template_text :: "piece list \<Rightarrow> string" where
  "template_text ps = concat (map piece_text ps)"

definition wf_piece :: "piece \<Rightarrow> bool" where
  "wf_piece p = (case p of Lit t \<Rightarrow> CHR ''{'' \<notin> set t | Hole k \<Rightarrow> brace_free k)"

definition render_piece :: "(string \<times> string) list \<Rightarrow> piece \<Rightarrow> string" where
  "render_piece params p =
     (case p of
        Lit t \<Rightarrow> t
      | Hole k \<Rightarrow> (case map_of params k of Some v \<Rightarrow> quote v | None \<Rightarrow> ''{'' @ k @ ''}''))"

definition subst_piece :: "(string \<times> string) list \<Rightarrow> piece \<Rightarrow> piece" where
  "subst_piece params p =
     (case p of
        Lit t \<Rightarrow> Lit t
      | Hole k \<Rightarrow> (case map_of params k of Some v \<Rightarrow> Lit (quote v) | None \<Rightarrow> Hole k))"

definition fill :: "string \<Rightarrow> string \<Rightarrow> piece \<Rightarrow> piece" where
  "fill k new p = (if p = Hole k then Lit new else p)"

text \<open>
  A reply is \<open>transient\<close> when \<^verbatim>\<open>_request\<close> retries after it: a status from 500 to 599, a
  connection error or a timeout.
\<close>

definition transient :: "'j reply \<Rightarrow> bool" where
  "transient r =
     (case r of
        Response resp \<Rightarrow> 500 \<le> status_code resp \<and> status_code resp < 600
      | ConnectionError e \<Rightarrow> True
      | Timeout e \<Rightarrow> True
      | OtherException e \<Rightarrow> False)"


section \<open>The retry loop\<close>

lemma sent_append: "sent (xs @ ys) = sent xs @ sent ys"
  by (induction xs rule: sent.induct) simp_all

lemma attempts_not_unknown:
  "fst (attempts c srv rq url as last_err tr) \<noteq> Inl (UnknownOperationId x)"
proof (induction as arbitrary: last_err tr)
  case Nil
  show ?case by simp
next
  case (Cons a as)
  show ?case
    by (cases "srv (length (sent tr)) rq") (simp_all add: Cons.IH split: option.split)
qed

lemma attempts_trace_prefix:
  "prefix tr (snd (attempts c srv rq url as last_err tr))"
proof (induction as arbitrary: last_err tr)
  case Nil
  show ?case by simp
next
  case (Cons a as)
  have step: "prefix tr (snd (attempts c srv rq url as e (tr @ [Sent rq, Slept a])))" for e
    using Cons.IH [where tr = "tr @ [Sent rq, Slept a]"] by (rule append_prefixD)
  show ?case
    by (cases "srv (length (sent tr)) rq") (simp_all add: step split: option.split)
qed

lemma attempts_sends_first:
  "prefix (tr @ [Sent rq]) (snd (attempts c srv rq url (a # as) last_err tr))"
proof -
  have step: "prefix (tr @ [Sent rq]) (snd (attempts c srv rq url as e (tr @ [Sent rq, Slept a])))" for e
  proof -
    have "prefix ((tr @ [Sent rq]) @ [Slept a])
            (snd (attempts c srv rq url as e (tr @ [Sent rq, Slept a])))"
      using attempts_trace_prefix [where tr = "tr @ [Sent rq, Slept a]"] by simp
    then show ?thesis by (rule append_prefixD)
  qed
  show ?thesis
    by (cases "srv (length (sent tr)) rq") (simp_all add: step split: option.split)
qed



lemma attempts_retry:
  assumes "transient (srv (length (sent tr)) rq)" and "a \<le> retries c"
  shows "\<exists>e. attempts c srv rq url (a # as) last_err tr =
              attempts c srv rq url as e (tr @ [Sent rq, Slept a])"
  using assms by (cases "srv (length (sent tr)) rq") (auto simp: transient_def)

lemma attempts_last:
  assumes "transient (srv (length (sent tr)) rq)" and "\<not> a \<le> retries c"
  shows "attempts c srv rq url (a # as) last_err tr =
           (case srv (length (sent tr)) rq of
              Response resp \<Rightarrow>
                (Inl (HttpError (status_code resp) url (py_take 500 (resp_text resp))
                        (safe_json resp)), tr @ [Sent rq])
            | ConnectionError e \<Rightarrow> (Inl (NetworkError url e), tr @ [Sent rq])
            | Timeout e \<Rightarrow> (Inl (NetworkError url e), tr @ [Sent rq])
            | OtherException e \<Rightarrow> (Inl (Raised e), tr @ [Sent rq]))"
  using assms by (cases "srv (length (sent tr)) rq") (simp_all add: transient_def)

lemma attempts_all_transient:
  assumes srv: "\<And>n. transient (srv n rq)"
  shows "a \<le> retries c + 1 \<Longrightarrow>
         attempts c srv rq url [a..retries c + 1] last_err tr =
           (fst (attempts c (\<lambda>n. srv (length (sent tr) + nat (retries c + 1 - a))) rq url [retries c + 1] None []),
            tr @ concat (map (\<lambda>i. [Sent rq, Slept i]) [a..retries c]) @ [Sent rq])"
proof (induction "nat (retries c + 1 - a)" arbitrary: a last_err tr)
  case 0
  then have a: "a = retries c + 1" by simp
  have "attempts c srv rq url [a] last_err tr =
           (fst (attempts c (\<lambda>n. srv (length (sent tr))) rq url [a] None []), tr @ [Sent rq])"
    using srv [of "length (sent tr)"]
    by (cases "srv (length (sent tr)) rq") (simp_all add: a transient_def)
  then show ?case by (simp add: a)
next
  case (Suc k)
  then have le: "a \<le> retries c" by simp
  then have up: "[a..retries c + 1] = a # [a + 1..retries c + 1]" "[a..retries c] = a # [a + 1..retries c]"
    by (simp_all add: upto_rec1)
  obtain e where e: "attempts c srv rq url (a # [a + 1..retries c + 1]) last_err tr =
      attempts c srv rq url [a + 1..retries c + 1] e (tr @ [Sent rq, Slept a])"
    using attempts_retry [where srv = srv and tr = tr and rq = rq, OF srv le] by blast
  have k: "k = nat (retries c + 1 - (a + 1))" using Suc.hyps(2) by simp
  have n: "Suc (length (sent tr) + nat (retries c - a)) = length (sent tr) + nat (retries c + 1 - a)"
    using le by simp
  show ?case
    using Suc.hyps(1) [OF k, of e "tr @ [Sent rq, Slept a]"] le
    by (simp add: up e sent_append n del: attempts.simps)
qed

lemma attempts_sent_subset:
  "set (sent (snd (attempts c srv rq url as last_err tr))) \<subseteq> insert rq (set (sent tr))"
proof (induction as arbitrary: last_err tr)
  case Nil
  show ?case by auto
next
  case (Cons a as)
  have step: "set (sent (snd (attempts c srv rq url as e (tr @ [Sent rq, Slept a]))))
                \<subseteq> insert rq (set (sent tr))" for e
    using Cons.IH [where tr = "tr @ [Sent rq, Slept a]"] by (auto simp: sent_append)
  show ?case
    by (cases "srv (length (sent tr)) rq")
       (auto simp: sent_append split: option.split dest: step [THEN subsetD])
qed

lemma request_sends_first:
  assumes "0 \<le> retries c"
  shows "sent (snd (request c srv meth url q b f h)) \<noteq> []"
proof -
  have "[1..retries c + 1] = 1 # [2..retries c + 1]"
    using assms by (simp add: upto_rec1)
  then have "prefix ([] @ [Sent (request_kwargs c meth url q b f h)])
               (snd (request c srv meth url q b f h))"
    unfolding request_def using attempts_sends_first by metis
  then show ?thesis
    by (auto simp: prefix_def sent_append)
qed

lemma load_openapi_schema_never_yaml_error:
  "load_openapi_schema c get \<noteq> Inl SchemaIsYaml"
  by (simp add: load_openapi_schema_def split: tried.split)

section \<open>Substrings and the resolver's passes\<close>

lemma str_in_iff: "str_in k s \<longleftrightarrow> (\<exists>a b. s = a @ k @ b)"
proof (induction s)
  case Nil
  show ?case by auto
next
  case (Cons c cs)
  have "(\<exists>a b. c # cs = a @ k @ b) \<longleftrightarrow> prefix k (c # cs) \<or> (\<exists>a b. cs = a @ k @ b)"
  proof
    assume "\<exists>a b. c # cs = a @ k @ b"
    then obtain a b where ab: "c # cs = a @ k @ b" by blast
    show "prefix k (c # cs) \<or> (\<exists>a b. cs = a @ k @ b)"
    proof (cases a)
      case Nil
      with ab show ?thesis by (auto simp: prefix_def)
    next
      case (Cons x a')
      with ab have "cs = a' @ k @ b" by simp
      then show ?thesis by blast
    qed
  next
    assume "prefix k (c # cs) \<or> (\<exists>a b. cs = a @ k @ b)"
    then show "\<exists>a b. c # cs = a @ k @ b"
    proof
      assume "prefix k (c # cs)"
      then obtain b where "c # cs = [] @ k @ b" by (auto simp: prefix_def)
      then show ?thesis by blast
    next
      assume "\<exists>a b. cs = a @ k @ b"
      then obtain a b where "c # cs = (c # a) @ k @ b" by auto
      then show ?thesis by blast
    qed
  qed
  with Cons.IH show ?case by simp
qed

lemma all_keywords_iff:
  "all_keywords lower keywords op \<longleftrightarrow>
     (\<forall>k \<in> set keywords. k \<noteq> [] \<longrightarrow>
        str_in (lower k) (lower (operation_id op @ '' '' @ path op)))"
  by (auto simp: all_keywords_def hay_def list_all_iff)

lemma sort_key_first_minimal:
  assumes "xs \<noteq> []"
  shows "\<exists>first rest. sort_key f xs = first # rest \<and> first \<in> set xs \<and>
           (\<forall>x \<in> set xs. f first \<le> f x)"
proof -
  have "length (sort_key f xs) = length xs" by simp
  with assms obtain first rest where fr: "sort_key f xs = first # rest"
    by (cases "sort_key f xs") auto
  have s: "set (first # rest) = set xs"
    using fr set_sort [of f xs] by simp
  have "sorted (map f (first # rest))"
    using sorted_sort_key [of f xs] fr by simp
  then have "\<forall>x \<in> set rest. f first \<le> f x" by simp
  then have "\<forall>x \<in> set (first # rest). f first \<le> f x" by simp
  with fr s show ?thesis by (metis list.set_intros(1))
qed

lemma find_op_strict_pass:
  assumes "filter (all_keywords lower keywords) (map snd (operations c)) \<noteq> []"
  shows "\<exists>found. find_op lower c keywords = Inr found \<and>
           found \<in> snd ` set (operations c) \<and> all_keywords lower keywords found \<and>
           (\<forall>other \<in> snd ` set (operations c). all_keywords lower keywords other \<longrightarrow>
              sort_rank found \<le> sort_rank other)"
proof -
  let ?cands = "filter (all_keywords lower keywords) (map snd (operations c))"
  obtain first rest where fr: "sort_key sort_rank ?cands = first # rest"
    and mem: "first \<in> set ?cands"
    and least: "\<forall>x \<in> set ?cands. sort_rank first \<le> sort_rank x"
    using sort_key_first_minimal [OF assms, of sort_rank] by blast
  have "find_op lower c keywords = Inr first"
    using assms fr by (simp add: find_op_def Let_def)
  with mem least show ?thesis by auto
qed

lemma sort_rank_le_iff:
  "sort_rank a \<le> sort_rank b \<longleftrightarrow>
     py_len (operation_id a) < py_len (operation_id b) \<or>
     (py_len (operation_id a) = py_len (operation_id b) \<and> operation_id a \<le> operation_id b)"
  by (auto simp: sort_rank_def less_eq_prod_def)

section \<open>Replacing placeholders\<close>

lemma str_replace_skip:
  "CHR ''{'' \<notin> set u \<Longrightarrow>
   str_replace (u @ s) (CHR ''{'' # w) new = u @ str_replace s (CHR ''{'' # w) new"
  by (induction u) auto

lemma str_replace_head:
  "old \<noteq> [] \<Longrightarrow> str_replace (old @ s) old new = new @ str_replace s old new"
  by (cases old) simp_all

lemma str_replace_no_match:
  "old \<noteq> [] \<Longrightarrow> \<not> prefix old (c # cs) \<Longrightarrow>
   str_replace (c # cs) old new = c # str_replace cs old new"
  by simp

lemma str_replace_no_brace:
  "CHR ''{'' \<notin> set s \<Longrightarrow> str_replace s (CHR ''{'' # w) new = s"
  using str_replace_skip [of s "[]" w new] by simp

lemma str_in_append: "str_in k s \<Longrightarrow> str_in k (u @ s @ v)"
  unfolding str_in_iff by (metis append.assoc)

lemma str_in_appendI: "str_in k s \<Longrightarrow> str_in k (u @ s)"
  using str_in_append [of k s u "[]"] by simp

lemma str_in_ConsI: "str_in k s \<Longrightarrow> str_in k (c # s)"
  by simp

lemma first_occurrence_unique:
  "x \<notin> set u \<Longrightarrow> x \<notin> set v \<Longrightarrow> u @ x # r = v @ x # r' \<Longrightarrow> u = v"
proof (induction u arbitrary: v)
  case Nil
  then show ?case by (cases v) auto
next
  case (Cons a u)
  then show ?case by (cases v) auto
qed

lemma placeholder_survives:
  assumes nf: "brace_free name" and kf: "brace_free k" and ne: "k \<noteq> name"
  shows "str_in (''{'' @ name @ ''}'') s \<Longrightarrow>
         str_in (''{'' @ name @ ''}'') (str_replace s (''{'' @ k @ ''}'') new)"
proof (induction s rule: length_induct)
  case (1 s)
  let ?P = "''{'' @ name @ ''}''" and ?O = "''{'' @ k @ ''}''"
  have IH: "str_in ?P t \<Longrightarrow> str_in ?P (str_replace t ?O new)" if "length t < length s" for t
    using 1 that by blast
  from "1.prems" obtain a b where s: "s = a @ ?P @ b"
    unfolding str_in_iff by blast
  show ?case
  proof (cases "prefix ?O s")
    case True
    then obtain rest where rest: "s = ?O @ rest"
      by (auto simp: prefix_def)
    have "a \<noteq> []"
    proof
      assume "a = []"
      with s rest have "name @ CHR ''}'' # b = k @ CHR ''}'' # rest" by simp
      then have "name = k"
        using nf kf by (auto simp: brace_free_def dest: first_occurrence_unique [rotated 2])
      with ne show False by simp
    qed
    then obtain a' where a: "a = CHR ''{'' # a'"
      using s rest by (cases a) auto
    have eq: "a' @ ?P @ b = k @ CHR ''}'' # rest"
      using s rest a by simp
    then consider us where "a' = k @ us" "us @ ?P @ b = CHR ''}'' # rest"
      | us where "a' @ us = k" "?P @ b = us @ CHR ''}'' # rest"
      by (auto simp: append_eq_append_conv2)
    then have "str_in ?P rest"
    proof cases
      case 1
      then obtain us' where "us = CHR ''}'' # us'" by (cases us) auto
      with 1 have "rest = us' @ ?P @ b" by simp
      then show ?thesis unfolding str_in_iff by blast
    next
      case 2
      then have "us \<noteq> []" by auto
      then obtain us' where "us = CHR ''{'' # us'"
        using 2(2) by (cases us) auto
      with 2(1) have "CHR ''{'' \<in> set k" by auto
      with kf show ?thesis by (simp add: brace_free_def)
    qed
    moreover have "length rest < length s" using rest by simp
    ultimately have "str_in ?P (str_replace rest ?O new)" by (rule IH [rotated])
    then have "str_in ?P (new @ str_replace rest ?O new)" by (rule str_in_appendI)
    moreover have "str_replace s ?O new = new @ str_replace rest ?O new"
      unfolding rest by (rule str_replace_head) simp
    ultimately show ?thesis by simp
  next
    case False
    show ?thesis
    proof (cases a)
      case Nil
      have nb: "CHR ''{'' \<notin> set name" using nf by (simp add: brace_free_def)
      have s': "s = CHR ''{'' # (name @ CHR ''}'' # b)"
        using s Nil by simp
      have "str_replace (CHR ''{'' # (name @ CHR ''}'' # b)) ?O new =
              CHR ''{'' # str_replace (name @ CHR ''}'' # b) ?O new"
      proof (rule str_replace_no_match)
        show "?O \<noteq> []" by simp
        show "\<not> prefix ?O (CHR ''{'' # (name @ CHR ''}'' # b))"
          using False unfolding s' .
      qed
      then have "str_replace s ?O new =
              CHR ''{'' # str_replace (name @ CHR ''}'' # b) ?O new"
        unfolding s' .
      also have "str_replace (name @ CHR ''}'' # b) ?O new =
                   name @ str_replace (CHR ''}'' # b) ?O new"
        using str_replace_skip [OF nb, of "CHR ''}'' # b" "k @ ''}''" new] by simp
      also have "str_replace (CHR ''}'' # b) ?O new = CHR ''}'' # str_replace b ?O new"
        by simp
      finally have "str_replace s ?O new = [] @ ?P @ str_replace b ?O new" by simp
      then show ?thesis unfolding str_in_iff by blast
    next
      case (Cons c a')
      then have cs: "s = c # (a' @ ?P @ b)" using s by simp
      have "str_in ?P (a' @ ?P @ b)" unfolding str_in_iff by blast
      moreover have "length (a' @ ?P @ b) < length s" using cs by simp
      ultimately have "str_in ?P (str_replace (a' @ ?P @ b) ?O new)" by (rule IH [rotated])
      then have "str_in ?P (c # str_replace (a' @ ?P @ b) ?O new)" by (rule str_in_ConsI)
      moreover have "str_replace s ?O new = c # str_replace (a' @ ?P @ b) ?O new"
        unfolding cs
      proof (rule str_replace_no_match)
        show "?O \<noteq> []" by simp
        show "\<not> prefix ?O (c # (a' @ ?P @ b))"
          using False unfolding cs .
      qed
      ultimately show ?thesis by simp
    qed
  qed
qed

lemma substitute_keeps_placeholder:
  assumes "brace_free name"
  shows "\<forall>k \<in> fst ` set params. brace_free k \<and> k \<noteq> name \<Longrightarrow>
         str_in (''{'' @ name @ ''}'') url \<Longrightarrow>
         str_in (''{'' @ name @ ''}'') (substitute url params)"
proof (induction params arbitrary: url)
  case Nil
  then show ?case by simp
next
  case (Cons kv params)
  obtain k v where kv: "kv = (k, v)" by (cases kv)
  have "brace_free k" "k \<noteq> name" using Cons.prems(1) kv by auto
  then have "str_in (''{'' @ name @ ''}'') (str_replace url (''{'' @ k @ ''}'') (quote v))"
    using placeholder_survives [OF assms] Cons.prems(2) by blast
  moreover have "\<forall>k \<in> fst ` set params. brace_free k \<and> k \<noteq> name"
    using Cons.prems(1) by auto
  ultimately show ?case
    using Cons.IH kv by simp
qed

lemma build_url_keeps_placeholder:
  assumes "brace_free name" and "\<forall>k \<in> fst ` set params. brace_free k \<and> k \<noteq> name"
    and "str_in (''{'' @ name @ ''}'') path_tpl"
  shows "str_in (''{'' @ name @ ''}'') (build_url c path_tpl params)"
  unfolding build_url_def
  using substitute_keeps_placeholder [OF assms(1,2)] assms(3) str_in_appendI by blast

lemma build_url_single:
  assumes "CHR ''{'' \<notin> set (base_url c @ pre @ post)"
  shows "build_url c (pre @ ''{'' @ k @ ''}'' @ post) [(k, v)] = base_url c @ pre @ quote v @ post"
proof -
  have u: "CHR ''{'' \<notin> set (base_url c @ pre)" and p: "CHR ''{'' \<notin> set post"
    using assms by auto
  have "str_replace ((base_url c @ pre) @ (''{'' @ k @ ''}'') @ post) (''{'' @ k @ ''}'') (quote v)
        = (base_url c @ pre) @ str_replace ((''{'' @ k @ ''}'') @ post) (''{'' @ k @ ''}'') (quote v)"
    using str_replace_skip [OF u, of "(''{'' @ k @ ''}'') @ post" "k @ ''}''" "quote v"] by simp
  also have "str_replace ((''{'' @ k @ ''}'') @ post) (''{'' @ k @ ''}'') (quote v)
        = quote v @ str_replace post (''{'' @ k @ ''}'') (quote v)"
    by (rule str_replace_head) simp
  also have "str_replace post (''{'' @ k @ ''}'') (quote v) = post"
    using str_replace_no_brace [OF p, of "k @ ''}''" "quote v"] by simp
  finally show ?thesis
    by (simp add: build_url_def)
qed

section \<open>Templates\<close>

lemma quote_char_no_open_brace: "CHR ''{'' \<notin> set (quote_char c)"
proof (cases "always_safe c")
  case True
  then have "c \<noteq> CHR ''{''"
    by (auto simp: always_safe_def)
  with True show ?thesis by (simp add: quote_char_def)
next
  case False
  have "CHR ''{'' \<noteq> hex_digit n" for n
  proof -
    have "hex_digit n \<in> set ''0123456789ABCDEF''"
      unfolding hex_digit_def by (rule nth_mem) simp
    then show ?thesis by auto
  qed
  with False show ?thesis by (simp add: quote_char_def)
qed

lemma quote_no_open_brace: "CHR ''{'' \<notin> set (quote v)"
  by (simp add: quote_def quote_char_no_open_brace)

lemma str_replace_other_hole:
  assumes n: "brace_free n" and k: "brace_free k" and ne: "n \<noteq> k"
  shows "str_replace (''{'' @ n @ ''}'' @ s) (''{'' @ k @ ''}'') new =
         ''{'' @ n @ ''}'' @ str_replace s (''{'' @ k @ ''}'') new"
proof -
  let ?O = "''{'' @ k @ ''}''"
  have nb: "CHR ''{'' \<notin> set n" using n by (simp add: brace_free_def)
  have np: "\<not> prefix ?O (CHR ''{'' # (n @ CHR ''}'' # s))"
  proof
    assume "prefix ?O (CHR ''{'' # (n @ CHR ''}'' # s))"
    then obtain r where "n @ CHR ''}'' # s = k @ CHR ''}'' # r"
      by (auto simp: prefix_def)
    then have "n = k"
      using n k by (auto simp: brace_free_def dest: first_occurrence_unique [rotated 2])
    with ne show False by simp
  qed
  have "str_replace (CHR ''{'' # (n @ CHR ''}'' # s)) ?O new =
          CHR ''{'' # str_replace (n @ CHR ''}'' # s) ?O new"
    by (rule str_replace_no_match [OF _ np]) simp
  also have "str_replace (n @ CHR ''}'' # s) ?O new = n @ str_replace (CHR ''}'' # s) ?O new"
    using str_replace_skip [OF nb, of "CHR ''}'' # s" "k @ ''}''" new] by simp
  also have "str_replace (CHR ''}'' # s) ?O new = CHR ''}'' # str_replace s ?O new"
    by simp
  finally show ?thesis by simp
qed

lemma fill_simps:
  "fill k new (Lit t) = Lit t"
  "fill k new (Hole k) = Lit new"
  "n \<noteq> k \<Longrightarrow> fill k new (Hole n) = Hole n"
  by (simp_all add: fill_def)

lemma piece_text_simps:
  "piece_text (Lit t) = t"
  "piece_text (Hole k) = ''{'' @ k @ ''}''"
  by (simp_all add: piece_text_def)

lemma replace_in_template:
  assumes k: "brace_free k"
  shows "list_all wf_piece ps \<Longrightarrow>
         str_replace (template_text ps) (''{'' @ k @ ''}'') new =
           template_text (map (fill k new) ps)"
proof (induction ps)
  case Nil
  show ?case by (simp add: template_text_def)
next
  case (Cons p ps)
  then have IH: "str_replace (template_text ps) (''{'' @ k @ ''}'') new =
                 template_text (map (fill k new) ps)"
    and wf: "wf_piece p"
    by simp_all
  show ?case
  proof (cases p)
    case (Lit t)
    then have "CHR ''{'' \<notin> set t" using wf by (simp add: wf_piece_def)
    from str_replace_skip [OF this, of "template_text ps" "k @ ''}''" new]
    show ?thesis
      using IH Lit by (simp add: template_text_def piece_text_simps fill_simps)
  next
    case (Hole n)
    then have n: "brace_free n" using wf by (simp add: wf_piece_def)
    show ?thesis
    proof (cases "n = k")
      case True
      have "str_replace ((''{'' @ k @ ''}'') @ template_text ps) (''{'' @ k @ ''}'') new =
              new @ str_replace (template_text ps) (''{'' @ k @ ''}'') new"
        by (rule str_replace_head) simp
      then show ?thesis
        using IH Hole True by (simp add: template_text_def piece_text_simps fill_simps)
    next
      case False
      from str_replace_other_hole [OF n k False, of "template_text ps" new]
      show ?thesis
        using IH Hole False by (simp add: template_text_def piece_text_simps fill_simps)
    qed
  qed
qed

lemma fill_wf:
  "CHR ''{'' \<notin> set new \<Longrightarrow> list_all wf_piece ps \<Longrightarrow> list_all wf_piece (map (fill k new) ps)"
  by (induction ps) (auto simp: fill_def wf_piece_def)

lemma subst_fill:
  "subst_piece rest (fill k (quote v) p) = subst_piece ((k, v) # rest) p"
  by (cases p) (auto simp: subst_piece_def fill_def)

lemma substitute_template:
  "list_all wf_piece ps \<Longrightarrow> list_all (\<lambda>kv. brace_free (fst kv)) params \<Longrightarrow>
   substitute (template_text ps) params = template_text (map (subst_piece params) ps)"
proof (induction params arbitrary: ps)
  case Nil
  have "map (subst_piece []) ps = ps"
    by (induction ps) (auto simp: subst_piece_def split: piece.split)
  then show ?case by simp
next
  case (Cons kv params)
  obtain k v where kv: "kv = (k, v)" by (cases kv)
  have k: "brace_free k" and rest: "list_all (\<lambda>kv. brace_free (fst kv)) params"
    using Cons.prems(2) kv by simp_all
  have step: "str_replace (template_text ps) (''{'' @ k @ ''}'') (quote v) =
              template_text (map (fill k (quote v)) ps)"
    using replace_in_template [OF k Cons.prems(1)] .
  have wf: "list_all wf_piece (map (fill k (quote v)) ps)"
    using quote_no_open_brace Cons.prems(1) by (rule fill_wf)
  have "substitute (template_text ps) (kv # params) =
        substitute (template_text (map (fill k (quote v)) ps)) params"
    using step kv by simp
  also have "\<dots> = template_text (map (subst_piece params) (map (fill k (quote v)) ps))"
    using wf rest by (rule Cons.IH)
  also have "\<dots> = template_text (map (subst_piece (kv # params)) ps)"
    by (simp add: subst_fill kv comp_def)
  finally show ?case .
qed

lemma piece_text_subst: "piece_text (subst_piece params p) = render_piece params p"
  by (cases p) (auto simp: piece_text_def subst_piece_def render_piece_def split: option.split)

lemma render_piece_Lit: "render_piece params (Lit t) = t"
  by (simp add: render_piece_def)

lemma build_url_template:
  assumes base: "CHR ''{'' \<notin> set (base_url c)" and wf: "list_all wf_piece ps"
    and keys: "list_all (\<lambda>kv. brace_free (fst kv)) params"
  shows "build_url c (template_text ps) params =
         base_url c @ concat (map (render_piece params) ps)"
proof -
  have wf': "list_all wf_piece (Lit (base_url c) # ps)"
    using base wf by (simp add: wf_piece_def)
  have "build_url c (template_text ps) params =
        substitute (template_text (Lit (base_url c) # ps)) params"
    by (simp add: build_url_def template_text_def piece_text_simps)
  also have "\<dots> = template_text (map (subst_piece params) (Lit (base_url c) # ps))"
    using wf' keys by (rule substitute_template)
  also have "\<dots> = base_url c @ concat (map (render_piece params) ps)"
    by (simp add: template_text_def piece_text_subst comp_def render_piece_Lit)
  finally show ?thesis .
qed

section \<open>The keys that the builder inserts\<close>











section \<open>The retry boundary\<close>






section \<open>The facade: lookup before execution\<close>

text \<open>
  Claim C7. For an identifier that is not a key of the catalog, \<open>call\<close> fails with the
  unknown-operation error and has sent no request. For an identifier that is a key, the
  lookup finds its operation and \<open>call\<close> is the execution of that operation by \<open>request\<close>,
  on the URL built from its path: the result is never the unknown-operation error, and
  the first request is sent (when \<open>retries\<close> is not negative, so that the loop has an
  attempt to make).
\<close>

theorem call_lookup_then_execute:
  "(op_id \<notin> fst ` set (operations c) \<longrightarrow>
      call c srv op_id args = (Inl (UnknownOperationId op_id), [])) \<and>
   (op_id \<in> fst ` set (operations c) \<longrightarrow>
      (\<exists>op. map_of (operations c) op_id = Some op \<and> (op_id, op) \<in> set (operations c) \<and>
         call c srv op_id args =
           request c srv (http_method op)
             (build_url c (path op) (case path_params args of None \<Rightarrow> [] | Some ps \<Rightarrow> ps))
             (query args) (body args) (files args) (headers args)) \<and>
      (\<forall>x. fst (call c srv op_id args) \<noteq> Inl (UnknownOperationId x)) \<and>
      (0 \<le> retries c \<longrightarrow> sent (snd (call c srv op_id args)) \<noteq> []))"
proof (intro conjI impI)
  assume "op_id \<notin> fst ` set (operations c)"
  then have "map_of (operations c) op_id = None"
    by (simp add: map_of_eq_None_iff)
  then show "call c srv op_id args = (Inl (UnknownOperationId op_id), [])"
    by (simp add: call_def)
next
  assume "op_id \<in> fst ` set (operations c)"
  then obtain op where op: "map_of (operations c) op_id = Some op"
    by (metis map_of_eq_None_iff not_Some_eq)
  have eq: "call c srv op_id args =
           request c srv (http_method op)
             (build_url c (path op) (case path_params args of None \<Rightarrow> [] | Some ps \<Rightarrow> ps))
             (query args) (body args) (files args) (headers args)"
    by (simp add: call_def op)
  show "\<exists>op. map_of (operations c) op_id = Some op \<and> (op_id, op) \<in> set (operations c) \<and>
         call c srv op_id args =
           request c srv (http_method op)
             (build_url c (path op) (case path_params args of None \<Rightarrow> [] | Some ps \<Rightarrow> ps))
             (query args) (body args) (files args) (headers args)"
    using op eq map_of_SomeD by fast
  show "\<forall>x. fst (call c srv op_id args) \<noteq> Inl (UnknownOperationId x)"
    unfolding eq request_def by (simp add: attempts_not_unknown)
  show "0 \<le> retries c \<Longrightarrow> sent (snd (call c srv op_id args)) \<noteq> []"
    unfolding eq by (rule request_sends_first)
qed

theorem call_lookup_then_execute_witness:
  "''getEFRSBCase'' \<notin> fst ` set (operations demo_client) \<and>
   call demo_client (always (Response (status_response 200))) ''getEFRSBCase'' no_args =
     (Inl (UnknownOperationId ''getEFRSBCase''), []) \<and>
   ''getEFRSBDebtor'' \<in> fst ` set (operations demo_client) \<and>
   0 \<le> retries demo_client \<and>
   sent (snd (call demo_client (always (Response (status_response 200))) ''getEFRSBDebtor''
                no_args)) \<noteq> []"
proof -
  have absent: "''getEFRSBCase'' \<notin> fst ` set (operations demo_client)"
    and present: "''getEFRSBDebtor'' \<in> fst ` set (operations demo_client)"
    and nonneg: "0 \<le> retries demo_client"
    by (simp_all add: demo_client_def demo_ops_def)
  show ?thesis
    using
      call_lookup_then_execute [where c = demo_client and op_id = "''getEFRSBCase''"
        and srv = "always (Response (status_response 200))" and args = no_args]
      call_lookup_then_execute [where c = demo_client and op_id = "''getEFRSBDebtor''"
        and srv = "always (Response (status_response 200))" and args = no_args]
      absent present nonneg
    by simp
qed

section \<open>The error after the last attempt\<close>

text \<open>
  Claim C2. The statement after the loop of \<^verbatim>\<open>_request\<close> raises
  \<^verbatim>\<open>"Request failed after retries: {last_err}"\<close>, but the loop never ends without a
  \<^verbatim>\<open>return\<close> or a \<^verbatim>\<open>raise\<close> when \<open>retries\<close> is not negative: the last attempt has
  \<open>attempt = retries + 1\<close>, so the guard \<open>attempt \<le> retries\<close> fails and the loop body
  raises the HTTP or the network error itself. When every attempt meets a transient
  failure, the error of the call is the error that a client with \<open>retries = 0\<close> raises at
  its first and only attempt on the same reply, and it is never the error of the statement
  after the loop.
\<close>

theorem exhausted_retries_raise_first_attempt_error:
  "0 \<le> retries c \<Longrightarrow> (\<forall>n rq. transient (srv n rq)) \<Longrightarrow>
   fst (request c srv meth url q b f h) =
     fst (request (c\<lparr>retries := 0\<rparr>) (\<lambda>n. srv (nat (retries c))) meth url q b f h) \<and>
   (\<forall>e. fst (request c srv meth url q b f h) \<noteq> Inl (RequestFailedAfterRetries e))"
proof -
  assume r: "0 \<le> retries c" and tr: "\<forall>n rq. transient (srv n rq)"
  define rq :: "'a http_request" where "rq = request_kwargs c meth url q b f h"
  define last where "last = srv (nat (retries c)) rq"
  define err :: "'a error + 'a result" where "err =
     (case last of
        Response resp \<Rightarrow>
          Inl (HttpError (status_code resp) url (py_take 500 (resp_text resp)) (safe_json resp))
      | ConnectionError e \<Rightarrow> Inl (NetworkError url e)
      | Timeout e \<Rightarrow> Inl (NetworkError url e)
      | OtherException e \<Rightarrow> Inl (Raised e))"
  have t: "transient (srv n rq)" for n using tr by simp
  have "fst (attempts c srv rq url [1..retries c + 1] None []) =
        fst (attempts c (\<lambda>n. srv (nat (retries c))) rq url [retries c + 1] None [])"
    using attempts_all_transient [where srv = srv and rq = rq and c = c and a = 1
        and tr = "[]" and last_err = None and url = url, OF t] r
    by (simp del: attempts.simps)
  also have "\<dots> = err"
    using attempts_last [where srv = "\<lambda>n. srv (nat (retries c))" and tr = "[]" and rq = rq
        and a = "retries c + 1" and c = c and url = url and as = "[]" and last_err = None] t
    by (simp add: err_def last_def split: reply.split del: attempts.simps)
  finally have lhs: "fst (request c srv meth url q b f h) = err"
    by (simp add: request_def rq_def)
  have kw: "request_kwargs (c\<lparr>retries := 0\<rparr>) meth url q b f h = rq"
    by (simp add: request_kwargs_def rq_def Let_def split: option.split)
  have "fst (attempts (c\<lparr>retries := 0\<rparr>) (\<lambda>n. srv (nat (retries c))) rq url [1] None []) = err"
    using attempts_last [where srv = "\<lambda>n. srv (nat (retries c))" and tr = "[]" and rq = rq
        and a = 1 and c = "c\<lparr>retries := 0\<rparr>" and url = url and as = "[]" and last_err = None] t
    by (simp add: err_def last_def split: reply.split del: attempts.simps)
  then have rhs: "fst (request (c\<lparr>retries := 0\<rparr>) (\<lambda>n. srv (nat (retries c))) meth url q b f h) = err"
    by (simp add: request_def kw upto_rec1 del: attempts.simps)
  have "err \<noteq> Inl (RequestFailedAfterRetries e)" for e
    by (simp add: err_def split: reply.split)
  with lhs rhs show ?thesis by simp
qed

theorem exhausted_retries_raise_first_attempt_error_witness:
  "0 \<le> retries demo_client \<and>
   (\<forall>n rq. transient (always (Response (status_response 503)) n rq)) \<and>
   fst (request demo_client (always (Response (status_response 503))) ''GET'' ''u''
          None None None None) =
   fst (request (demo_client\<lparr>retries := 0\<rparr>) (\<lambda>n. always (Response (status_response 503)) 3)
          ''GET'' ''u'' None None None None)"
  using exhausted_retries_raise_first_attempt_error [where c = demo_client
      and srv = "always (Response (status_response 503))" and meth = "''GET''" and url = "''u''"
      and q = None and b = None and f = None and h = None]
  by (simp add: demo_client_def always_def status_response_def transient_def)

section \<open>The schema loader\<close>

text \<open>
  Claim C4. When the first \<^verbatim>\<open>try\<close> block of the loader returns nothing and the second
  location answers 200 with a body that \<^verbatim>\<open>json.loads\<close> cannot decode, the second block
  raises the error that names the format (\<open>SchemaIsYaml\<close>), its own handler
  \<^verbatim>\<open>except Exception: pass\<close> discards that error, and the loader fails with the error
  that the schema could be loaded from neither location.
\<close>

theorem undecodable_yaml_reported_as_not_loaded:
  "(\<forall>doc. try_json c get \<noteq> Returned doc) \<Longrightarrow>
   get (base_url c @ ''/openapi.yaml'') [(''Accept'', ''application/yaml, */*'')] = Response r \<Longrightarrow>
   status_code r = 200 \<Longrightarrow> resp_json r = None \<Longrightarrow>
   try_yaml c get = RaisedIn SchemaIsYaml \<and>
   load_openapi_schema c get =
     Inl (SchemaNotLoaded (base_url c @ ''/openapi.json'') (base_url c @ ''/openapi.yaml''))"
  by (simp add: load_openapi_schema_def try_yaml_def split: tried.split)

theorem undecodable_yaml_reported_as_not_loaded_witness:
  "(\<forall>doc. try_json demo_client yaml_only_get \<noteq> Returned doc) \<and>
   yaml_only_get (base_url demo_client @ ''/openapi.yaml'') [(''Accept'', ''application/yaml, */*'')] =
     Response yaml_response \<and>
   status_code yaml_response = 200 \<and> resp_json yaml_response = None \<and>
   try_yaml demo_client yaml_only_get = RaisedIn SchemaIsYaml \<and>
   load_openapi_schema demo_client yaml_only_get =
     Inl (SchemaNotLoaded ''https://legal-api.sirotinsky.com/openapi.json''
                          ''https://legal-api.sirotinsky.com/openapi.yaml'')"
proof -
  have primary: "\<forall>doc. try_json demo_client yaml_only_get \<noteq> Returned doc"
    by (simp add: try_json_def demo_client_def yaml_only_get_def)
  have secondary: "yaml_only_get (base_url demo_client @ ''/openapi.yaml'')
                     [(''Accept'', ''application/yaml, */*'')] = Response yaml_response"
    by (simp add: demo_client_def yaml_only_get_def)
  have body: "status_code yaml_response = 200" "resp_json yaml_response = None"
    by (simp_all add: yaml_response_def)
  have url: "base_url demo_client = ''https://legal-api.sirotinsky.com''"
    by (simp add: demo_client_def)
  show ?thesis
    using undecodable_yaml_reported_as_not_loaded [OF primary secondary body]
      primary secondary body
    by (simp add: url)
qed

section \<open>The encoding of the body\<close>

text \<open>
  Claim C5, as the claim states it, says that a structured body given together with files
  is not put into the request. It is: \<^verbatim>\<open>_request\<close> passes it as \<^verbatim>\<open>data=body\<close>, next to
  \<^verbatim>\<open>files=files\<close>. Here a body and one file are given, and the one request that is sent
  carries the body as its \<^verbatim>\<open>data\<close>.
\<close>

theorem body_with_files_is_sent_as_data:
  "truthy upload_files \<and>
   map req_data (sent (snd (request demo_client (always (Response (status_response 200)))
                              ''POST'' ''u'' None (Some upload_body) upload_files None))) =
     [Some upload_body]"
  by (simp add: request_def request_kwargs_def demo_client_def always_def status_response_def
        upload_files_def truthy_def upto_rec1)

text \<open>
  Claim C5, amended. Every request that \<^verbatim>\<open>_request\<close> sends carries the files as given.
  With files present there is no JSON payload, and the body, if any, is passed as form
  data (\<^verbatim>\<open>data=body\<close>) with the files. Without files a structured body is the JSON
  payload (\<^verbatim>\<open>json=body\<close>, which is what makes \<^verbatim>\<open>requests\<close> serialize it and set the
  content type) and there is no form data; without files and without a body the request
  has neither.
\<close>

theorem request_body_encoding:
  "rq \<in> set (sent (snd (request c srv meth url q b f h))) \<Longrightarrow>
   req_files rq = f \<and>
   (truthy f \<longrightarrow> req_json rq = None \<and> req_data rq = b) \<and>
   (\<not> truthy f \<longrightarrow> req_json rq = b \<and> req_data rq = None)"
proof -
  assume "rq \<in> set (sent (snd (request c srv meth url q b f h)))"
  then have "rq = request_kwargs c meth url q b f h"
    unfolding request_def using attempts_sent_subset by fastforce
  then show ?thesis
    by (auto simp: request_kwargs_def Let_def)
qed

theorem request_body_encoding_witness:
  "request_kwargs demo_client ''POST'' ''u'' None (Some upload_body) upload_files None
     \<in> set (sent (snd (request demo_client (always (Response (status_response 200)))
                          ''POST'' ''u'' None (Some upload_body) upload_files None))) \<and>
   truthy upload_files \<and>
   req_json (request_kwargs demo_client ''POST'' ''u'' None (Some upload_body) upload_files None)
     = None \<and>
   req_data (request_kwargs demo_client ''POST'' ''u'' None (Some upload_body) upload_files None)
     = Some upload_body \<and>
   request_kwargs demo_client ''POST'' ''u'' None (Some upload_body) None None
     \<in> set (sent (snd (request demo_client (always (Response (status_response 200)))
                          ''POST'' ''u'' None (Some upload_body) None None))) \<and>
   \<not> truthy (None :: (string \<times> string) list option) \<and>
   req_json (request_kwargs demo_client ''POST'' ''u'' None (Some upload_body) None None)
     = Some upload_body \<and>
   req_data (request_kwargs demo_client ''POST'' ''u'' None (Some upload_body) None None)
     = None"
proof -
  have mem: "request_kwargs demo_client ''POST'' ''u'' None (Some upload_body) upload_files None
     \<in> set (sent (snd (request demo_client (always (Response (status_response 200)))
                          ''POST'' ''u'' None (Some upload_body) upload_files None)))"
    by (simp add: request_def demo_client_def always_def status_response_def upto_rec1)
  have files: "truthy upload_files"
    by (simp add: upload_files_def truthy_def)
  have mem': "request_kwargs demo_client ''POST'' ''u'' None (Some upload_body) None None
     \<in> set (sent (snd (request demo_client (always (Response (status_response 200)))
                          ''POST'' ''u'' None (Some upload_body) None None)))"
    by (simp add: request_def demo_client_def always_def status_response_def upto_rec1)
  have no_files: "\<not> truthy (None :: (string \<times> string) list option)"
    by (simp add: truthy_def)
  show ?thesis
    using request_body_encoding [OF mem] request_body_encoding [OF mem'] mem files mem' no_files
    by simp
qed

section \<open>The keyword resolver\<close>

text \<open>
  Claim C6. If some operation of the catalog contains every non-empty keyword, put in
  lower case, in the lower case of its identifier, a space and its path, then the resolver
  returns an operation of the catalog that contains every such keyword, and that operation
  is least among all operations that do: its identifier has fewer characters than the
  other's, or they have the same number of characters and its identifier is not after the
  other's in the order of strings. This holds for every lower-casing function.
\<close>

theorem find_op_strict_minimal:
  "op \<in> snd ` set (operations c) \<Longrightarrow>
   \<forall>k \<in> set keywords. k \<noteq> [] \<longrightarrow>
      str_in (lower k) (lower (operation_id op @ '' '' @ path op)) \<Longrightarrow>
   \<exists>found. find_op lower c keywords = Inr found \<and>
     found \<in> snd ` set (operations c) \<and>
     (\<forall>k \<in> set keywords. k \<noteq> [] \<longrightarrow>
        str_in (lower k) (lower (operation_id found @ '' '' @ path found))) \<and>
     (\<forall>other \<in> snd ` set (operations c).
        (\<forall>k \<in> set keywords. k \<noteq> [] \<longrightarrow>
           str_in (lower k) (lower (operation_id other @ '' '' @ path other))) \<longrightarrow>
        py_len (operation_id found) < py_len (operation_id other) \<or>
        (py_len (operation_id found) = py_len (operation_id other) \<and>
         operation_id found \<le> operation_id other))"
proof -
  assume "op \<in> snd ` set (operations c)"
    and "\<forall>k \<in> set keywords. k \<noteq> [] \<longrightarrow>
      str_in (lower k) (lower (operation_id op @ '' '' @ path op))"
  then have "op \<in> set (filter (all_keywords lower keywords) (map snd (operations c)))"
    by (auto simp: all_keywords_iff)
  then have "filter (all_keywords lower keywords) (map snd (operations c)) \<noteq> []"
    by (metis empty_iff empty_set)
  from find_op_strict_pass [OF this] show ?thesis
    unfolding sort_rank_le_iff all_keywords_iff .
qed

theorem find_op_strict_minimal_witness:
  "snd (demo_ops ! 0) \<in> snd ` set (operations demo_client) \<and>
   all_keywords ascii_lower [''NOTICE'', [], ''Efrsb''] (snd (demo_ops ! 0)) \<and>
   \<not> str_in ''NOTICE'' (operation_id (snd (demo_ops ! 0)) @ '' '' @ path (snd (demo_ops ! 0))) \<and>
   \<not> all_keywords ascii_lower [''NOTICE'', [], ''Efrsb''] (snd (demo_ops ! 1)) \<and>
   (find_op ascii_lower demo_client [''NOTICE'', [], ''Efrsb''] :: unit error + operation) =
     Inr (snd (demo_ops ! 0)) \<and>
   all_keywords ascii_lower [''efrsb''] (snd (demo_ops ! 0)) \<and>
   all_keywords ascii_lower [''efrsb''] (snd (demo_ops ! 1)) \<and>
   (find_op ascii_lower demo_client [''efrsb''] :: unit error + operation) =
     Inr (snd (demo_ops ! 1)) \<and>
   all_keywords ascii_lower [''/''] (snd (cyrillic_ops ! 0)) \<and>
   all_keywords ascii_lower [''/''] (snd (cyrillic_ops ! 1)) \<and>
   (find_op ascii_lower cyrillic_client [''/''] :: unit error + operation) =
     Inr (snd (cyrillic_ops ! 1))"
proof -
  note defs = all_keywords_def hay_def demo_ops_def cyrillic_ops_def ya_ya_def ascii_lower_def
    ascii_lower_char_def ascii_uppercase_def ascii_lowercase_def
  have mem: "snd (demo_ops ! 0) \<in> snd ` set (operations demo_client)"
    and second: "snd (demo_ops ! 1) \<in> snd ` set (operations demo_client)"
    by (simp_all add: demo_client_def demo_ops_def)
  have cmem: "snd (cyrillic_ops ! 0) \<in> snd ` set (operations cyrillic_client)"
    and csecond: "snd (cyrillic_ops ! 1) \<in> snd ` set (operations cyrillic_client)"
    by (simp_all add: cyrillic_client_def cyrillic_ops_def)
  have all: "all_keywords ascii_lower [''NOTICE'', [], ''Efrsb''] (snd (demo_ops ! 0))"
    by (simp add: defs)
  have cased: "\<not> str_in ''NOTICE''
      (operation_id (snd (demo_ops ! 0)) @ '' '' @ path (snd (demo_ops ! 0)))"
    by (simp add: demo_ops_def)
  have none: "\<not> all_keywords ascii_lower [''NOTICE'', [], ''Efrsb''] (snd (demo_ops ! 1))"
    by (simp add: defs)
  have both: "all_keywords ascii_lower [''efrsb''] (snd (demo_ops ! 0))"
    "all_keywords ascii_lower [''efrsb''] (snd (demo_ops ! 1))"
    by (simp_all add: defs)
  have cboth: "all_keywords ascii_lower [''/''] (snd (cyrillic_ops ! 0))"
    "all_keywords ascii_lower [''/''] (snd (cyrillic_ops ! 1))"
    by (simp_all add: defs)
  have two: "x = snd (demo_ops ! 0) \<or> x = snd (demo_ops ! 1)"
    if "x \<in> snd ` set (operations demo_client)" for x
    using that by (auto simp: demo_client_def demo_ops_def)
  have ctwo: "x = snd (cyrillic_ops ! 0) \<or> x = snd (cyrillic_ops ! 1)"
    if "x \<in> snd ` set (operations cyrillic_client)" for x
    using that by (auto simp: cyrillic_client_def cyrillic_ops_def)
  have first: "(find_op ascii_lower demo_client [''NOTICE'', [], ''Efrsb'']
      :: unit error + operation) = Inr (snd (demo_ops ! 0))"
  proof -
    obtain found where found: "(find_op ascii_lower demo_client [''NOTICE'', [], ''Efrsb'']
        :: unit error + operation) = Inr found"
      and inside: "found \<in> snd ` set (operations demo_client)"
      and matches: "all_keywords ascii_lower [''NOTICE'', [], ''Efrsb''] found"
      using find_op_strict_minimal [OF mem all [unfolded all_keywords_iff], where 'a = unit]
      unfolding all_keywords_iff by blast
    have "found \<noteq> snd (demo_ops ! 1)"
      using matches none by blast
    with two [OF inside] found show ?thesis by simp
  qed
  have shortest: "(find_op ascii_lower demo_client [''efrsb''] :: unit error + operation) =
      Inr (snd (demo_ops ! 1))"
  proof -
    obtain found where found: "(find_op ascii_lower demo_client [''efrsb'']
        :: unit error + operation) = Inr found"
      and inside: "found \<in> snd ` set (operations demo_client)"
      and least: "\<forall>other \<in> snd ` set (operations demo_client).
        all_keywords ascii_lower [''efrsb''] other \<longrightarrow>
        py_len (operation_id found) < py_len (operation_id other) \<or>
        (py_len (operation_id found) = py_len (operation_id other) \<and>
         operation_id found \<le> operation_id other)"
      using find_op_strict_minimal [OF mem both(1) [unfolded all_keywords_iff], where 'a = unit]
      unfolding all_keywords_iff by blast
    have "found \<noteq> snd (demo_ops ! 0)"
      using least [rule_format, OF second both(2)]
      by (auto simp: demo_ops_def py_len_def is_continuation_def)
    with two [OF inside] found show ?thesis by auto
  qed
  have fewest: "(find_op ascii_lower cyrillic_client [''/''] :: unit error + operation) =
      Inr (snd (cyrillic_ops ! 1))"
  proof -
    obtain found where found: "(find_op ascii_lower cyrillic_client [''/'']
        :: unit error + operation) = Inr found"
      and inside: "found \<in> snd ` set (operations cyrillic_client)"
      and least: "\<forall>other \<in> snd ` set (operations cyrillic_client).
        all_keywords ascii_lower [''/''] other \<longrightarrow>
        py_len (operation_id found) < py_len (operation_id other) \<or>
        (py_len (operation_id found) = py_len (operation_id other) \<and>
         operation_id found \<le> operation_id other)"
      using find_op_strict_minimal [OF cmem cboth(1) [unfolded all_keywords_iff], where 'a = unit]
      unfolding all_keywords_iff by blast
    have "found \<noteq> snd (cyrillic_ops ! 0)"
      using least [rule_format, OF csecond cboth(2)]
      by (auto simp: cyrillic_ops_def ya_ya_def py_len_def is_continuation_def)
    with ctwo [OF inside] found show ?thesis by auto
  qed
  show ?thesis
    by (intro conjI) (rule mem all cased none first both shortest cboth fewest)+
qed

text \<open>
  Claim C10. On a catalog that is not empty, with no keyword or with empty keywords only,
  the resolver does not fail: every operation passes the strict pass, and the resolver
  returns an operation of the catalog that is least among all its operations, by the
  number of characters of the identifier and then by the identifier.
\<close>

theorem find_op_without_keywords:
  "operations c \<noteq> [] \<Longrightarrow> \<forall>k \<in> set keywords. k = [] \<Longrightarrow>
   \<exists>found. find_op lower c keywords = Inr found \<and> found \<in> snd ` set (operations c) \<and>
     (\<forall>other \<in> snd ` set (operations c).
        py_len (operation_id found) < py_len (operation_id other) \<or>
        (py_len (operation_id found) = py_len (operation_id other) \<and>
         operation_id found \<le> operation_id other))"
proof -
  assume nonempty: "operations c \<noteq> []" and empty: "\<forall>k \<in> set keywords. k = []"
  have every: "all_keywords lower keywords op" for op
    using empty by (simp add: all_keywords_iff)
  then have "filter (all_keywords lower keywords) (map snd (operations c)) =
             map snd (operations c)"
    by simp
  with nonempty have "filter (all_keywords lower keywords) (map snd (operations c)) \<noteq> []"
    by simp
  from find_op_strict_pass [OF this] every show ?thesis
    by (simp add: sort_rank_le_iff)
qed

theorem find_op_without_keywords_witness:
  "operations cyrillic_client \<noteq> [] \<and> set [[], []] = {[] :: string} \<and>
   py_len ya_ya = 2 \<and> length ya_ya = 4 \<and> py_len ''abc'' = 3 \<and>
   (find_op ascii_lower cyrillic_client [[], []] :: unit error + operation) =
     Inr (snd (cyrillic_ops ! 1)) \<and>
   (find_op ascii_lower cyrillic_client [] :: unit error + operation) =
     Inr (snd (cyrillic_ops ! 1))"
proof -
  have nonempty: "operations cyrillic_client \<noteq> []"
    by (simp add: cyrillic_client_def cyrillic_ops_def)
  have empty: "\<forall>k \<in> set [[], [] :: string]. k = []" and nokw: "\<forall>k \<in> set ([] :: string list). k = []"
    by simp_all
  have lens: "py_len ya_ya = 2" "length ya_ya = 4" "py_len ''abc'' = 3"
    by (simp_all add: ya_ya_def py_len_def is_continuation_def)
  have first: "snd (cyrillic_ops ! 0) \<in> snd ` set (operations cyrillic_client)"
    by (simp add: cyrillic_client_def cyrillic_ops_def)
  have ctwo: "x = snd (cyrillic_ops ! 0) \<or> x = snd (cyrillic_ops ! 1)"
    if "x \<in> snd ` set (operations cyrillic_client)" for x
    using that by (auto simp: cyrillic_client_def cyrillic_ops_def)
  have result: "(find_op ascii_lower cyrillic_client kws :: unit error + operation) =
      Inr (snd (cyrillic_ops ! 1))"
    if kws: "\<forall>k \<in> set kws. k = []" for kws
  proof -
    obtain found where found: "(find_op ascii_lower cyrillic_client kws
        :: unit error + operation) = Inr found"
      and inside: "found \<in> snd ` set (operations cyrillic_client)"
      and least: "\<forall>other \<in> snd ` set (operations cyrillic_client).
        py_len (operation_id found) < py_len (operation_id other) \<or>
        (py_len (operation_id found) = py_len (operation_id other) \<and>
         operation_id found \<le> operation_id other)"
      using find_op_without_keywords [OF nonempty kws, where 'a = unit and lower = ascii_lower]
      by blast
    have "found \<noteq> snd (cyrillic_ops ! 0)"
    proof
      assume "found = snd (cyrillic_ops ! 0)"
      then have "operation_id found = ''abc''"
        by (simp add: cyrillic_ops_def)
      moreover have "operation_id (snd (cyrillic_ops ! 1)) = ya_ya"
        by (simp add: cyrillic_ops_def)
      moreover have "snd (cyrillic_ops ! 1) \<in> snd ` set (operations cyrillic_client)"
        by (simp add: cyrillic_client_def cyrillic_ops_def)
      ultimately show False
        using least lens by force
    qed
    with ctwo [OF inside] found show ?thesis by auto
  qed
  show ?thesis
    using nonempty lens result [OF empty] result [OF nokw] by simp
qed

section \<open>Listing the catalog\<close>

text \<open>
  Claim C9. The listing holds exactly the identifiers of the catalog, each as often as it
  is a key, in ascending order of strings. It is a function of the catalog alone, and it
  does not depend on the order of insertion: two catalogs with the same entries in any
  order have the same listing.
\<close>

theorem list_endpoints_sorted_stable:
  "sorted (list_endpoints c) \<and>
   mset (list_endpoints c) = mset (map fst (operations c)) \<and>
   (mset (operations c') = mset (operations c) \<longrightarrow> list_endpoints c' = list_endpoints c)"
proof (intro conjI impI)
  show "sorted (list_endpoints c)"
    by (simp add: list_endpoints_def)
  show "mset (list_endpoints c) = mset (map fst (operations c))"
    by (simp add: list_endpoints_def)
  assume "mset (operations c') = mset (operations c)"
  then have "mset (map fst (operations c')) = mset (map fst (operations c))"
    by (metis mset_map)
  then have "mset (sort (map fst (operations c))) = mset (map fst (operations c'))"
    by simp
  then show "list_endpoints c' = list_endpoints c"
    unfolding list_endpoints_def
    by (rule properties_for_sort) simp
qed

theorem list_endpoints_sorted_stable_witness:
  "mset (operations (demo_client\<lparr>operations := rev demo_ops\<rparr>)) = mset (operations demo_client) \<and>
   list_endpoints (demo_client\<lparr>operations := rev demo_ops\<rparr>) = list_endpoints demo_client \<and>
   list_endpoints demo_client = [''getEFRSBDebtor'', ''searchEFRSBNotices'']"
proof -
  have same: "mset (operations (demo_client\<lparr>operations := rev demo_ops\<rparr>)) =
              mset (operations demo_client)"
    by (simp add: demo_client_def)
  have listing: "list_endpoints demo_client = [''getEFRSBDebtor'', ''searchEFRSBNotices'']"
    by (simp add: list_endpoints_def demo_client_def demo_ops_def)
  show ?thesis
    using list_endpoints_sorted_stable [where c = demo_client
        and c' = "demo_client\<lparr>operations := rev demo_ops\<rparr>"] same listing
    by simp
qed

section \<open>Placeholders without a value\<close>

text \<open>
  Claim C1, as the claim states it, says that a call whose path has a placeholder without
  a path parameter fails and sends no request with the braces in its URL. It does not
  fail: \<^verbatim>\<open>_build_url\<close> only replaces the placeholders of the parameters it is given and
  checks nothing. Here the operation of path \<^verbatim>\<open>/efrsb/debtors/{id}\<close> is called without
  path parameters; one request is sent, to the URL with the literal \<^verbatim>\<open>{id}\<close>, and the
  call returns the decoded answer.
\<close>

theorem unresolved_placeholder_is_sent:
  "fst (call demo_client (always (Response (status_response 200))) ''getEFRSBDebtor'' no_args) =
     Inr (Json ''{}'') \<and>
   map req_url (sent (snd (call demo_client (always (Response (status_response 200)))
                             ''getEFRSBDebtor'' no_args))) =
     [''https://legal-api.sirotinsky.com/efrsb/debtors/{id}'']"
  by (simp add: call_def request_def request_kwargs_def build_url_def demo_client_def
        demo_ops_def no_args_def always_def status_response_def upto_rec1)

text \<open>
  Claim C1, amended. A placeholder \<^verbatim>\<open>{name}\<close> of the path for which no path parameter
  is given is no error: it stays in the URL as it is, and every request of the call is
  sent to a URL that contains it (names and given keys being without braces). The
  placeholders whose values are given are replaced by the percent-encoded values, every
  occurrence of every one of them: for a template of literal texts and placeholders, and
  any mapping of path parameters, the URL is the base followed by the pieces of the
  template in their order, each literal text as it is, each placeholder with a value as
  the percent-encoded value, each placeholder without a value as it is written (no
  literal text and not the base having an opening brace, no name and no key having a
  brace).
\<close>

theorem build_url_placeholders:
  "(map_of (operations c) op_id = Some op \<and> brace_free name \<and>
    (\<forall>k \<in> fst ` set (case path_params args of None \<Rightarrow> [] | Some ps \<Rightarrow> ps).
        brace_free k \<and> k \<noteq> name) \<and>
    str_in (''{'' @ name @ ''}'') (path op) \<and>
    rq \<in> set (sent (snd (call c srv op_id args))) \<longrightarrow>
      str_in (''{'' @ name @ ''}'') (req_url rq)) \<and>
   (CHR ''{'' \<notin> set (base_url c) \<and> list_all wf_piece pieces \<and>
    list_all (\<lambda>kv. brace_free (fst kv)) params \<longrightarrow>
      build_url c (template_text pieces) params =
        base_url c @ concat (map (render_piece params) pieces))"
proof (intro conjI impI)
  assume a: "map_of (operations c) op_id = Some op \<and> brace_free name \<and>
    (\<forall>k \<in> fst ` set (case path_params args of None \<Rightarrow> [] | Some ps \<Rightarrow> ps).
        brace_free k \<and> k \<noteq> name) \<and>
    str_in (''{'' @ name @ ''}'') (path op) \<and>
    rq \<in> set (sent (snd (call c srv op_id args)))"
  let ?url = "build_url c (path op) (case path_params args of None \<Rightarrow> [] | Some ps \<Rightarrow> ps)"
  have url: "str_in (''{'' @ name @ ''}'') ?url"
    using a by (intro build_url_keeps_placeholder) simp_all
  have look: "map_of (operations c) op_id = Some op"
    and mem: "rq \<in> set (sent (snd (call c srv op_id args)))"
    using a by blast+
  have "rq \<in> set (sent (snd (request c srv (http_method op) ?url
                 (query args) (body args) (files args) (headers args))))"
    using mem by (simp add: call_def look)
  then have "rq = request_kwargs c (http_method op) ?url
                    (query args) (body args) (files args) (headers args)"
    unfolding request_def using attempts_sent_subset by fastforce
  then have "req_url rq = ?url \<or> (\<exists>qs. req_url rq = [] @ ?url @ qs)"
    by (auto simp: request_kwargs_def Let_def split: option.split)
  then show "str_in (''{'' @ name @ ''}'') (req_url rq)"
    using url str_in_append [of "''{'' @ name @ ''}''" ?url "[]"] by auto
next
  assume "CHR ''{'' \<notin> set (base_url c) \<and> list_all wf_piece pieces \<and>
    list_all (\<lambda>kv. brace_free (fst kv)) params"
  then show "build_url c (template_text pieces) params =
             base_url c @ concat (map (render_piece params) pieces)"
    by (intro build_url_template) simp_all
qed

theorem build_url_placeholders_witness:
  "map_of (operations case_client) ''getEFRSBCase'' = Some case_op \<and>
   brace_free ''id'' \<and> brace_free ''case'' \<and>
   str_in (''{'' @ ''id'' @ ''}'') (path case_op) \<and>
   (request_kwargs case_client ''GET''
       ''https://legal-api.sirotinsky.com/efrsb/debtors/{id}/cases/A40-1%2F2024''
       None None None None :: string http_request)
     \<in> set (sent (snd (call case_client (always (Response (status_response 200)))
                          ''getEFRSBCase'' case_args))) \<and>
   str_in (''{'' @ ''id'' @ ''}'')
     (req_url (request_kwargs case_client ''GET''
                 ''https://legal-api.sirotinsky.com/efrsb/debtors/{id}/cases/A40-1%2F2024''
                 None None None None :: string http_request)) \<and>
   CHR ''{'' \<notin> set (base_url demo_client) \<and>
   build_url demo_client ''/efrsb/debtors/{id}'' [(''id'', ''12345'')] =
     ''https://legal-api.sirotinsky.com/efrsb/debtors/12345'' \<and>
   build_url demo_client ''/efrsb/debtors/{id}/cases/{case}/page/{page}/{id}''
       [(''id'', ''12 345''), (''case'', ''A40-1/2024'')] =
     ''https://legal-api.sirotinsky.com/efrsb/debtors/12%20345/cases/A40-1%2F2024/page/{page}/12%20345''"
proof -
  let ?rq = "request_kwargs case_client ''GET''
               ''https://legal-api.sirotinsky.com/efrsb/debtors/{id}/cases/A40-1%2F2024''
               None None None None :: string http_request"
  let ?one = "[Lit ''/efrsb/debtors/'', Hole ''id'']"
  let ?many = "[Lit ''/efrsb/debtors/'', Hole ''id'', Lit ''/cases/'', Hole ''case'',
                Lit ''/page/'', Hole ''page'', Lit ''/'', Hole ''id'']"
  let ?given = "[(''id'', ''12 345''), (''case'', ''A40-1/2024'')]"
  note enc = quote_def quote_char_def always_safe_def hex_digit_def
  have look: "map_of (operations case_client) ''getEFRSBCase'' = Some case_op"
    by (simp add: case_client_def)
  have name: "brace_free ''id''" and other: "brace_free ''case''"
    by (simp_all add: brace_free_def)
  have keys: "\<forall>k \<in> fst ` set (case path_params case_args of None \<Rightarrow> [] | Some ps \<Rightarrow> ps).
                brace_free k \<and> k \<noteq> ''id''"
    by (simp add: case_args_def brace_free_def)
  have tpl: "str_in (''{'' @ ''id'' @ ''}'') (path case_op)"
    by (simp add: case_op_def)
  have built: "build_url case_client (path case_op) [(''case'', ''A40-1/2024'')] =
      ''https://legal-api.sirotinsky.com/efrsb/debtors/{id}/cases/A40-1%2F2024''"
    by (simp add: build_url_def case_client_def case_op_def enc)
  have mem: "?rq \<in> set (sent (snd (call case_client (always (Response (status_response 200)))
                                     ''getEFRSBCase'' case_args)))"
    by (simp add: call_def look case_args_def built)
       (simp add: request_def case_client_def case_op_def always_def status_response_def
          upto_rec1)
  have base: "CHR ''{'' \<notin> set (base_url demo_client)"
    by (simp add: demo_client_def)
  have url: "base_url demo_client = ''https://legal-api.sirotinsky.com''"
    by (simp add: demo_client_def)
  have wf1: "list_all wf_piece ?one" and wf2: "list_all wf_piece ?many"
    by (simp_all add: wf_piece_def brace_free_def)
  have k1: "list_all (\<lambda>kv. brace_free (fst kv)) [(''id'', ''12345'')]"
    and k2: "list_all (\<lambda>kv. brace_free (fst kv)) ?given"
    by (simp_all add: brace_free_def)
  have t1: "template_text ?one = ''/efrsb/debtors/{id}''"
    and t2: "template_text ?many = ''/efrsb/debtors/{id}/cases/{case}/page/{page}/{id}''"
    by (simp_all add: template_text_def piece_text_def)
  have r1: "concat (map (render_piece [(''id'', ''12345'')]) ?one) = ''/efrsb/debtors/12345''"
    by (simp add: render_piece_def enc)
  have r2: "concat (map (render_piece ?given) ?many) =
      ''/efrsb/debtors/12%20345/cases/A40-1%2F2024/page/{page}/12%20345''"
    by (simp add: render_piece_def enc)
  have kept: "str_in (''{'' @ ''id'' @ ''}'') (req_url ?rq)"
  proof (rule mp [OF build_url_placeholders [where c = case_client
        and op_id = "''getEFRSBCase''" and op = case_op and name = "''id''"
        and args = case_args and rq = ?rq
        and srv = "always (Response (status_response 200))", THEN conjunct1]])
    show "map_of (operations case_client) ''getEFRSBCase'' = Some case_op \<and>
      brace_free ''id'' \<and>
      (\<forall>k \<in> fst ` set (case path_params case_args of None \<Rightarrow> [] | Some ps \<Rightarrow> ps).
          brace_free k \<and> k \<noteq> ''id'') \<and>
      str_in (''{'' @ ''id'' @ ''}'') (path case_op) \<and>
      ?rq \<in> set (sent (snd (call case_client (always (Response (status_response 200)))
                                ''getEFRSBCase'' case_args)))"
      by (intro conjI) (rule look name keys tpl mem)+
  qed
  have "build_url demo_client (template_text ?one) [(''id'', ''12345'')] =
        base_url demo_client @ concat (map (render_piece [(''id'', ''12345'')]) ?one)"
    by (rule mp [OF build_url_placeholders [where c = demo_client and pieces = ?one
          and params = "[(''id'', ''12345'')]", THEN conjunct2]])
       (intro conjI base wf1 k1)
  then have single: "build_url demo_client ''/efrsb/debtors/{id}'' [(''id'', ''12345'')] =
      ''https://legal-api.sirotinsky.com/efrsb/debtors/12345''"
    unfolding t1 r1 url by simp
  have "build_url demo_client (template_text ?many) ?given =
        base_url demo_client @ concat (map (render_piece ?given) ?many)"
    by (rule mp [OF build_url_placeholders [where c = demo_client and pieces = ?many
          and params = ?given, THEN conjunct2]])
       (intro conjI base wf2 k2)
  then have several: "build_url demo_client ''/efrsb/debtors/{id}/cases/{case}/page/{page}/{id}''
       [(''id'', ''12 345''), (''case'', ''A40-1/2024'')] =
     ''https://legal-api.sirotinsky.com/efrsb/debtors/12%20345/cases/A40-1%2F2024/page/{page}/12%20345''"
    unfolding t2 r2 url by simp
  show ?thesis
    by (intro conjI) (rule look name other tpl mem kept base single several)+
qed

section \<open>The size of the catalog\<close>




end
